theory Spec2Isabelle
  imports Main
begin

section \<open>Data model\<close>

text \<open>
  The \<^verbatim>\<open>Card\<close> model of \<^verbatim>\<open>main.py\<close>: five integer fields. Python's integers are
  unbounded, hence \<^typ>\<open>int\<close>. The field \<^verbatim>\<open>id\<close> is called \<open>card_id\<close> here, since
  \<open>id\<close> is the identity function of HOL.
\<close>

record Card =
  card_id :: int
  count :: int
  shape :: int
  fill :: int
  color :: int

text \<open>
  \<^verbatim>\<open>GameRoom\<close>: the deck and the field are Python lists (the deck is popped at its end,
  the field is appended to at its end), \<^verbatim>\<open>players\<close> is a dictionary from access token
  to score, \<^verbatim>\<open>status\<close> is a string.
\<close>

record GameRoom =
  game_id :: int
  deck :: "Card list"
  field :: "Card list"
  players :: "string \<rightharpoonup> int"
  status :: string

text \<open>The exceptions the modelled methods can raise.\<close>

datatype error = KeyError | ValueError

section \<open>Matching rule\<close>

text \<open>
  The local function \<^verbatim>\<open>check_property\<close> of \<^verbatim>\<open>is_valid_set\<close>. The chained comparison
  \<^verbatim>\<open>v1 == v2 == v3\<close> of Python is \<^verbatim>\<open>v1 == v2 and v2 == v3\<close>.
\<close>

definition check_property :: "int \<Rightarrow> int \<Rightarrow> int \<Rightarrow> bool" where
  "check_property v1 v2 v3 \<longleftrightarrow> (v1 = v2 \<and> v2 = v3) \<or> (v1 \<noteq> v2 \<and> v1 \<noteq> v3 \<and> v2 \<noteq> v3)"

definition is_valid_set :: "Card \<Rightarrow> Card \<Rightarrow> Card \<Rightarrow> bool" where
  "is_valid_set c1 c2 c3 \<longleftrightarrow>
     check_property (color c1) (color c2) (color c3) \<and>
     check_property (shape c1) (shape c2) (shape c3) \<and>
     check_property (fill c1) (fill c2) (fill c3) \<and>
     check_property (count c1) (count c2) (count c3)"

section \<open>Deck construction\<close>

text \<open>
  The four nested loops of \<^verbatim>\<open>_initialize_deck\<close>, outermost first: color, shape, fill,
  count, each over \<^verbatim>\<open>[1, 2, 3]\<close>.
\<close>

definition attribute_loops :: "(int \<times> int \<times> int \<times> int) list" where
  "attribute_loops =
     [(co, sh, fi, cn). co \<leftarrow> [1, 2, 3], sh \<leftarrow> [1, 2, 3], fi \<leftarrow> [1, 2, 3], cn \<leftarrow> [1, 2, 3]]"

text \<open>
  The loop body: append the card carrying the running \<^verbatim>\<open>card_id\<close>, then add one to
  the counter. The state of the loop is the deck built so far and the counter.
\<close>

definition append_card ::
  "Card list \<times> int \<Rightarrow> int \<times> int \<times> int \<times> int \<Rightarrow> Card list \<times> int" where
  "append_card st a =
     (case (st, a) of ((dk, next_id), (co, sh, fi, cn)) \<Rightarrow>
        (dk @ [\<lparr>card_id = next_id, count = cn, shape = sh, fill = fi, color = co\<rparr>],
         next_id + 1))"

definition ordered_deck :: "Card list \<Rightarrow> Card list" where
  "ordered_deck dk = fst (foldl append_card (dk, 0) attribute_loops)"

text \<open>
  \<^verbatim>\<open>random.shuffle\<close> is the standard library's Fisher-Yates loop
  \<^verbatim>\<open>for i in reversed(range(1, len(x))): j = randbelow(i + 1); x[i], x[j] = x[j], x[i]\<close>.
  The random draws are a parameter of the model: \<open>rnd i\<close> is the raw draw of the
  iteration with index \<open>i\<close>, reduced into \<open>{0..i}\<close> as \<^verbatim>\<open>randbelow(i + 1)\<close> is.
  Every run of the Python code is the model at some \<open>rnd\<close>.
\<close>

fun shuffle_loop :: "(nat \<Rightarrow> nat) \<Rightarrow> nat \<Rightarrow> 'a list \<Rightarrow> 'a list" where
  "shuffle_loop rnd 0 x = x"
| "shuffle_loop rnd (Suc i) x =
     (let j = rnd (Suc i) mod (Suc i + 1)
      in shuffle_loop rnd i (x[Suc i := x ! j, j := x ! Suc i]))"

definition shuffle :: "(nat \<Rightarrow> nat) \<Rightarrow> 'a list \<Rightarrow> 'a list" where
  "shuffle rnd x = shuffle_loop rnd (length x - 1) x"

definition initialize_deck :: "(nat \<Rightarrow> nat) \<Rightarrow> GameRoom \<Rightarrow> GameRoom" where
  "initialize_deck rnd g = g\<lparr>deck := shuffle rnd (ordered_deck (deck g))\<rparr>"

section \<open>Dealing\<close>

text \<open>The statement \<^verbatim>\<open>self.field.append(self.deck.pop())\<close>, guarded by \<^verbatim>\<open>if self.deck\<close>.\<close>

definition deal_if_any :: "GameRoom \<Rightarrow> GameRoom" where
  "deal_if_any g =
     (if deck g \<noteq> [] then g\<lparr>field := field g @ [last (deck g)], deck := butlast (deck g)\<rparr>
      else g)"

text \<open>\<^verbatim>\<open>for _ in range(n): if self.deck: self.field.append(self.deck.pop())\<close>\<close>

fun deal_times :: "nat \<Rightarrow> GameRoom \<Rightarrow> GameRoom" where
  "deal_times 0 g = g"
| "deal_times (Suc n) g = deal_times n (deal_if_any g)"

definition deal_initial_cards :: "GameRoom \<Rightarrow> GameRoom" where
  "deal_initial_cards g = deal_times 12 g"

definition add_cards :: "GameRoom \<Rightarrow> GameRoom" where
  "add_cards g = deal_times 3 g"

text \<open>The constructor \<^verbatim>\<open>GameRoom.__init__\<close>.\<close>

definition GameRoom_init :: "(nat \<Rightarrow> nat) \<Rightarrow> int \<Rightarrow> GameRoom" where
  "GameRoom_init rnd gid =
     deal_initial_cards (initialize_deck rnd
       \<lparr>game_id = gid, deck = [], field = [], players = Map.empty, status = ''ongoing''\<rparr>)"

definition add_player :: "GameRoom \<Rightarrow> string \<Rightarrow> GameRoom" where
  "add_player g access_token =
     (if access_token \<notin> dom (players g) then g\<lparr>players := (players g)(access_token \<mapsto> 0)\<rparr>
      else g)"

section \<open>Picking a set\<close>

text \<open>\<^verbatim>\<open>get_card_by_id\<close>: the first card of the field with the given id, or \<^verbatim>\<open>None\<close>.\<close>

fun find_card :: "Card list \<Rightarrow> int \<Rightarrow> Card option" where
  "find_card [] i = None"
| "find_card (c # rest) i = (if card_id c = i then Some c else find_card rest i)"

definition get_card_by_id :: "GameRoom \<Rightarrow> int \<Rightarrow> Card option" where
  "get_card_by_id g i = find_card (field g) i"

text \<open>
  \<^verbatim>\<open>for card in cards: self.field.remove(card)\<close>. \<^verbatim>\<open>list.remove\<close> deletes the first
  equal element and raises \<^verbatim>\<open>ValueError\<close> when there is none; the removals done before
  the exception stay done. The result is the exception, if any, and the field.
\<close>

fun remove_cards :: "Card list \<Rightarrow> Card list \<Rightarrow> error option \<times> Card list" where
  "remove_cards fld [] = (None, fld)"
| "remove_cards fld (c # rest) =
     (if c \<in> set fld then remove_cards (remove1 c fld) rest
      else (Some ValueError, fld))"

text \<open>\<^verbatim>\<open>while len(self.field) < 12 and self.deck: self.field.append(self.deck.pop())\<close>\<close>

function refill :: "GameRoom \<Rightarrow> GameRoom" where
  "refill g =
     (if length (field g) < 12 \<and> deck g \<noteq> []
      then refill (g\<lparr>field := field g @ [last (deck g)], deck := butlast (deck g)\<rparr>)
      else g)"
  by pat_completeness auto
termination
  by (relation "measure (\<lambda>g. length (deck g))") auto

text \<open>\<^verbatim>\<open>if not self.deck and len(self.field) < 3: self.status = "ended"\<close>\<close>

definition check_ended :: "GameRoom \<Rightarrow> GameRoom" where
  "check_ended g =
     (if deck g = [] \<and> length (field g) < 3 then g\<lparr>status := ''ended''\<rparr> else g)"

text \<open>
  \<^verbatim>\<open>pick_set\<close>. The result is the pair of what the call produces (the exception it
  raises, or the returned pair of the flag and the score) and the room as the call
  leaves it. \<^verbatim>\<open>self.players[access_token]\<close> raises \<^verbatim>\<open>KeyError\<close> for a token that has
  not joined. In the matching branch the source removes the cards first, then updates
  the score, then refills, then checks for the end: an exception leaves the room as the
  statements before it made it.
\<close>

definition read_score :: "GameRoom \<Rightarrow> string \<Rightarrow> (error + bool \<times> int) \<times> GameRoom" where
  "read_score g access_token =
     (case players g access_token of
        None \<Rightarrow> (Inl KeyError, g)
      | Some s \<Rightarrow> (Inr (False, s), g))"

definition pick_set :: "GameRoom \<Rightarrow> string \<Rightarrow> int list \<Rightarrow> (error + bool \<times> int) \<times> GameRoom" where
  "pick_set g access_token card_ids =
     (if length card_ids \<noteq> 3 then read_score g access_token
      else
        let cards = map (get_card_by_id g) card_ids in
        if None \<in> set cards then read_score g access_token
        else
          let c0 = the (cards ! 0); c1 = the (cards ! 1); c2 = the (cards ! 2);
              is_set = is_valid_set c0 c1 c2
          in
            if is_set then
              (case remove_cards (field g) [c0, c1, c2] of
                 (Some e, fld) \<Rightarrow> (Inl e, g\<lparr>field := fld\<rparr>)
               | (None, fld) \<Rightarrow>
                   (case players g access_token of
                      None \<Rightarrow> (Inl KeyError, g\<lparr>field := fld\<rparr>)
                    | Some s \<Rightarrow>
                        (Inr (is_set, s + 1),
                         check_ended (refill
                           (g\<lparr>field := fld, players := (players g)(access_token \<mapsto> s + 1)\<rparr>)))))
            else
              (case players g access_token of
                 None \<Rightarrow> (Inl KeyError, g)
               | Some s \<Rightarrow>
                   (Inr (is_set, s - 1), g\<lparr>players := (players g)(access_token \<mapsto> s - 1)\<rparr>)))"

section \<open>Sequences of operations on a room\<close>

text \<open>
  The calls a room receives during its life, and the room after a sequence of them.
  A call that raises leaves the room as the exception found it (the endpoints catch the
  exception and the room object lives on).
\<close>

datatype room_op = Pick string "int list" | AddCards | AddPlayer string

fun apply_op :: "GameRoom \<Rightarrow> room_op \<Rightarrow> GameRoom" where
  "apply_op g (Pick access_token card_ids) = snd (pick_set g access_token card_ids)"
| "apply_op g AddCards = add_cards g"
| "apply_op g (AddPlayer access_token) = add_player g access_token"

definition run :: "GameRoom \<Rightarrow> room_op list \<Rightarrow> GameRoom" where
  "run g ops = foldl apply_op g ops"

section \<open>The session directory\<close>

text \<open>
  An entry of \<^verbatim>\<open>ServerState.users\<close> (a dictionary with the keys \<^verbatim>\<open>nickname\<close>,
  \<^verbatim>\<open>password\<close> and \<^verbatim>\<open>current_game_id\<close>) and \<^verbatim>\<open>ServerState\<close> itself.
\<close>

record user =
  nickname :: string
  password :: string
  current_game_id :: "int option"

record ServerState =
  users :: "string \<rightharpoonup> user"
  games :: "int \<rightharpoonup> GameRoom"
  next_game_id :: int

definition ServerState_init :: ServerState where
  "ServerState_init = \<lparr>users = Map.empty, games = Map.empty, next_game_id = 0\<rparr>"

text \<open>
  \<^verbatim>\<open>register_user\<close>; the token that \<^verbatim>\<open>_generate_token\<close> draws at random is a parameter.
\<close>

definition register_user :: "ServerState \<Rightarrow> string \<Rightarrow> string \<Rightarrow> string \<Rightarrow> string \<times> ServerState" where
  "register_user s access_token nick pw =
     (access_token,
      s\<lparr>users := (users s)(access_token \<mapsto>
          \<lparr>nickname = nick, password = pw, current_game_id = None\<rparr>)\<rparr>)"

definition verify_token :: "ServerState \<Rightarrow> string \<Rightarrow> bool" where
  "verify_token s access_token \<longleftrightarrow> access_token \<in> dom (users s)"

definition create_game :: "(nat \<Rightarrow> nat) \<Rightarrow> ServerState \<Rightarrow> int \<times> ServerState" where
  "create_game rnd s =
     (let gid = next_game_id s
      in (gid, s\<lparr>next_game_id := next_game_id s + 1,
                 games := (games s)(gid \<mapsto> GameRoom_init rnd gid)\<rparr>))"

text \<open>
  \<^verbatim>\<open>enter_game\<close>: the test on the room comes first; \<^verbatim>\<open>self.users[access_token]\<close> raises
  \<^verbatim>\<open>KeyError\<close> for an unknown token.
\<close>

definition enter_game :: "ServerState \<Rightarrow> string \<Rightarrow> int \<Rightarrow> (error + bool) \<times> ServerState" where
  "enter_game s access_token gid =
     (case games s gid of
        None \<Rightarrow> (Inr False, s)
      | Some room \<Rightarrow>
          (case users s access_token of
             None \<Rightarrow> (Inl KeyError, s)
           | Some u \<Rightarrow>
               (Inr True,
                s\<lparr>users := (users s)(access_token \<mapsto> u\<lparr>current_game_id := Some gid\<rparr>),
                  games := (games s)(gid \<mapsto> add_player room access_token)\<rparr>)))"

definition get_user_game :: "ServerState \<Rightarrow> string \<Rightarrow> error + GameRoom option" where
  "get_user_game s access_token =
     (case users s access_token of
        None \<Rightarrow> Inl KeyError
      | Some u \<Rightarrow>
          (case current_game_id u of
             None \<Rightarrow> Inr None
           | Some gid \<Rightarrow> Inr (games s gid)))"

text \<open>
  The endpoint \<^verbatim>\<open>enter_room\<close>. Its answer is a failure with a message, the failure
  that carries the text of a caught exception (\<^verbatim>\<open>except Exception as e\<close>), or the id of
  the room entered.
\<close>

datatype enter_response = Failure string | Raised error | Entered int

definition enter_room :: "ServerState \<Rightarrow> string \<Rightarrow> int \<Rightarrow> enter_response \<times> ServerState" where
  "enter_room s access_token gid =
     (if \<not> verify_token s access_token then (Failure ''Invalid access token'', s)
      else
        (case enter_game s access_token gid of
           (Inl e, s') \<Rightarrow> (Raised e, s')
         | (Inr success, s') \<Rightarrow>
             if \<not> success then (Failure ''Game not found'', s')
             else (Entered gid, s')))"

section \<open>Notions of the statements\<close>

subsection \<open>The matching rule in the words of the specification\<close>

text \<open>
  The specification calls an attribute of a triple coherent when its three values are
  all equal or pairwise distinct. Counting the different values among the three: one
  value means all equal, three values mean pairwise distinct, two values mean that
  exactly two of the three are equal. These definitions follow the specification, not
  the code, and are compared with \<open>is_valid_set\<close> below.
\<close>

definition all_equal :: "int \<Rightarrow> int \<Rightarrow> int \<Rightarrow> bool" where
  "all_equal a b c \<longleftrightarrow> card {a, b, c} = 1"

definition pairwise_distinct :: "int \<Rightarrow> int \<Rightarrow> int \<Rightarrow> bool" where
  "pairwise_distinct a b c \<longleftrightarrow> card {a, b, c} = 3"

definition exactly_two_equal :: "int \<Rightarrow> int \<Rightarrow> int \<Rightarrow> bool" where
  "exactly_two_equal a b c \<longleftrightarrow> card {a, b, c} = 2"

definition coherent :: "int \<Rightarrow> int \<Rightarrow> int \<Rightarrow> bool" where
  "coherent a b c \<longleftrightarrow> all_equal a b c \<or> pairwise_distinct a b c"

subsection \<open>The cards of a room\<close>

text \<open>
  The four attributes of a card, in the order of the loops that build the deck; the
  cards of deck and field together; the set of their ids.
\<close>

definition attributes :: "Card \<Rightarrow> int \<times> int \<times> int \<times> int" where
  "attributes c = (color c, shape c, fill c, count c)"

definition cards_in_play :: "GameRoom \<Rightarrow> Card list" where
  "cards_in_play g = deck g @ field g"

definition ids_in_play :: "GameRoom \<Rightarrow> int set" where
  "ids_in_play g = card_id ` (set (deck g) \<union> set (field g))"

subsection \<open>The status and the exceptions of a run\<close>

text \<open>
  A room is \<open>ended_drained\<close> when its status is not "ended" or its deck is empty and
  its field has fewer than 3 cards. It is \<open>settled\<close> when moreover the field has at
  least 12 cards while the deck has any, and the status is "ended" as soon as the deck
  is empty and the field has fewer than 3 cards.
\<close>

definition ended_drained :: "GameRoom \<Rightarrow> bool" where
  "ended_drained g \<longleftrightarrow> status g \<noteq> ''ended'' \<or> (deck g = [] \<and> length (field g) < 3)"

definition settled :: "GameRoom \<Rightarrow> bool" where
  "settled g \<longleftrightarrow>
     (deck g = [] \<or> 12 \<le> length (field g)) \<and>
     ((status g = ''ended'') = (deck g = [] \<and> length (field g) < 3))"

text \<open>
  Whether a call raises in a room (only \<open>pick_set\<close> can), and whether no call of a
  sequence does.
\<close>

fun raises :: "GameRoom \<Rightarrow> room_op \<Rightarrow> bool" where
  "raises g (Pick access_token card_ids) = isl (fst (pick_set g access_token card_ids))"
| "raises g AddCards = False"
| "raises g (AddPlayer access_token) = False"

fun no_exception :: "GameRoom \<Rightarrow> room_op list \<Rightarrow> bool" where
  "no_exception g [] = True"
| "no_exception g (op # ops) = (\<not> raises g op \<and> no_exception (apply_op g op) ops)"

section \<open>Concrete cards, rooms and runs\<close>

text \<open>Four cards of the deck: ids 0, 1, 2 differ in count only; id 5 has another fill.\<close>

definition card_a :: Card where
  "card_a = \<lparr>card_id = 0, count = 1, shape = 1, fill = 1, color = 1\<rparr>"

definition card_b :: Card where
  "card_b = \<lparr>card_id = 1, count = 2, shape = 1, fill = 1, color = 1\<rparr>"

definition card_c :: Card where
  "card_c = \<lparr>card_id = 2, count = 3, shape = 1, fill = 1, color = 1\<rparr>"

definition card_d :: Card where
  "card_d = \<lparr>card_id = 5, count = 3, shape = 1, fill = 2, color = 1\<rparr>"

text \<open>
  The random source whose every draw at index \<open>i\<close> is \<open>i\<close> itself: each iteration of
  the shuffle swaps an element with itself, and the deck stays in the order of its
  construction. The room built with it has the cards with the ids 80 down to 69 on its
  field and the cards with the ids 0 to 68 in its deck.
\<close>

definition no_swap :: "nat \<Rightarrow> nat" where
  "no_swap i = i"

definition fresh_room :: GameRoom where
  "fresh_room = GameRoom_init no_swap 0"

definition joined_room :: GameRoom where
  "joined_room = add_player fresh_room ''alice''"

text \<open>
  The room after a pick of the set with the ids 80, 79, 78 (they differ in count only),
  and after a pick of the ids 80, 79, 77, which are no set (counts 3, 2, 3).
\<close>

definition picked_room :: GameRoom where
  "picked_room = snd (pick_set joined_room ''alice'' [80, 79, 78])"

definition missed_room :: GameRoom where
  "missed_room = snd (pick_set joined_room ''alice'' [80, 79, 77])"

text \<open>A server with one registered user, who has created room 0 and entered it.\<close>

definition lobby :: ServerState where
  "lobby = snd (enter_game
     (snd (create_game no_swap (snd (register_user ServerState_init ''alice'' ''Alice'' ''pw''))))
     ''alice'' 0)"

text \<open>
  A run that empties the deck. A round on a field of twelve cards with the ids \<open>t\<close>
  down to \<open>t - 11\<close> submits each of the nine ids \<open>t - 11\<close> to \<open>t - 3\<close> three times
  over and then picks the ids \<open>t\<close>, \<open>t - 1\<close>, \<open>t - 2\<close>.
\<close>

definition triple_pick :: "int \<Rightarrow> room_op" where
  "triple_pick i = Pick ''alice'' [i, i, i]"

definition drain_round :: "int \<Rightarrow> room_op list" where
  "drain_round t = map triple_pick [t - 11..t - 3] @ [Pick ''alice'' [t, t - 1, t - 2]]"

definition drain_ops :: "room_op list" where
  "drain_ops = AddPlayer ''alice'' # concat (map drain_round [80, 68, 56, 44, 32, 20])
     @ map triple_pick [0..6]"

section \<open>Setup\<close>

declare refill.simps [simp del]

section \<open>The matching rule\<close>

lemma card3_cases:
  "card {a, b, c :: int} =
     (if a = b \<and> b = c then 1 else if a \<noteq> b \<and> a \<noteq> c \<and> b \<noteq> c then 3 else 2)"
  by (auto simp: card_insert_if)

lemma check_property_coherent: "check_property a b c \<longleftrightarrow> coherent a b c"
  by (simp add: check_property_def coherent_def all_equal_def pairwise_distinct_def card3_cases)

lemma check_property_two_equal: "exactly_two_equal a b c \<Longrightarrow> \<not> check_property a b c"
  by (simp add: check_property_def exactly_two_equal_def card3_cases split: if_splits)

text \<open>
  Claim C5. For every triple of cards, \<open>is_valid_set\<close> is true exactly when each of the
  four attributes (count, shape, fill, color) is coherent: its three values are all
  equal or pairwise distinct. A triple with exactly two equal values on some attribute
  is not a valid set.
\<close>

theorem is_valid_set_coherent:
  "(is_valid_set c1 c2 c3 \<longleftrightarrow>
      coherent (count c1) (count c2) (count c3) \<and>
      coherent (shape c1) (shape c2) (shape c3) \<and>
      coherent (fill c1) (fill c2) (fill c3) \<and>
      coherent (color c1) (color c2) (color c3)) \<and>
   (exactly_two_equal (count c1) (count c2) (count c3) \<or>
    exactly_two_equal (shape c1) (shape c2) (shape c3) \<or>
    exactly_two_equal (fill c1) (fill c2) (fill c3) \<or>
    exactly_two_equal (color c1) (color c2) (color c3) \<longrightarrow> \<not> is_valid_set c1 c2 c3)"
proof (intro conjI impI)
  show "is_valid_set c1 c2 c3 \<longleftrightarrow>
      coherent (count c1) (count c2) (count c3) \<and>
      coherent (shape c1) (shape c2) (shape c3) \<and>
      coherent (fill c1) (fill c2) (fill c3) \<and>
      coherent (color c1) (color c2) (color c3)"
    unfolding is_valid_set_def check_property_coherent by blast
next
  assume "exactly_two_equal (count c1) (count c2) (count c3) \<or>
    exactly_two_equal (shape c1) (shape c2) (shape c3) \<or>
    exactly_two_equal (fill c1) (fill c2) (fill c3) \<or>
    exactly_two_equal (color c1) (color c2) (color c3)"
  then show "\<not> is_valid_set c1 c2 c3"
    unfolding is_valid_set_def using check_property_two_equal by blast
qed

theorem is_valid_set_coherent_witness:
  "is_valid_set card_a card_b card_c \<and>
   exactly_two_equal (fill card_a) (fill card_b) (fill card_d) \<and>
   \<not> is_valid_set card_a card_b card_d"
  using is_valid_set_coherent [of card_a card_b card_c]
    is_valid_set_coherent [of card_a card_b card_d]
  by (simp add: card_a_def card_b_def card_c_def card_d_def coherent_def all_equal_def
      pairwise_distinct_def exactly_two_equal_def card3_cases)

section \<open>Dealing in closed form\<close>

lemma deal_if_any_snoc:
  "deck g = ys @ [y] \<Longrightarrow> deal_if_any g = g\<lparr>field := field g @ [y], deck := ys\<rparr>"
  by (simp add: deal_if_any_def)

lemma deal_if_any_Nil: "deck g = [] \<Longrightarrow> deal_if_any g = g"
  by (simp add: deal_if_any_def)

lemma deal_times_closed:
  "deal_times n g =
     g\<lparr>field := field g @ take n (rev (deck g)), deck := rev (drop n (rev (deck g)))\<rparr>"
proof (induction n arbitrary: g)
  case 0
  show ?case by simp
next
  case (Suc n)
  show ?case
  proof (cases "deck g" rule: rev_cases)
    case Nil
    then show ?thesis by (simp add: deal_if_any_Nil Suc.IH)
  next
    case (snoc ys y)
    then show ?thesis by (simp add: deal_if_any_snoc Suc.IH)
  qed
qed

lemma field_deal_times: "field (deal_times n g) = field g @ take n (rev (deck g))"
  by (simp add: deal_times_closed)

lemma deck_deal_times: "deck (deal_times n g) = rev (drop n (rev (deck g)))"
  by (simp add: deal_times_closed)

lemma players_deal_times: "players (deal_times n g) = players g"
  by (simp add: deal_times_closed)

lemma status_deal_times: "status (deal_times n g) = status g"
  by (simp add: deal_times_closed)

lemma deck_split_deal_times:
  "deck g = deck (deal_times n g) @ rev (take n (rev (deck g)))"
proof -
  have "rev (take n (rev (deck g)) @ drop n (rev (deck g))) = deck g" by simp
  then show ?thesis unfolding rev_append deck_deal_times by simp
qed

lemma refill_deal_times:
  "refill g = deal_times (min (12 - length (field g)) (length (deck g))) g"
proof (induction g rule: refill.induct)
  case (1 g)
  show ?case
  proof (cases "length (field g) < 12 \<and> deck g \<noteq> []")
    case False
    then have k0: "min (12 - length (field g)) (length (deck g)) = 0" by auto
    have "refill g = g" using False by (subst refill.simps) auto
    then show ?thesis by (simp add: k0)
  next
    case True
    let ?g = "g\<lparr>field := field g @ [last (deck g)], deck := butlast (deck g)\<rparr>"
    have step: "deal_if_any g = ?g" using True by (simp add: deal_if_any_def)
    have k: "min (12 - length (field g)) (length (deck g)) =
        Suc (min (12 - length (field ?g)) (length (deck ?g)))"
      using True by (cases "deck g") auto
    have "refill g = refill ?g" using True by (subst refill.simps) simp
    also have "\<dots> = deal_times (min (12 - length (field ?g)) (length (deck ?g))) ?g"
      using True by (rule "1.IH")
    also have "\<dots> = deal_times (min (12 - length (field g)) (length (deck g))) g"
      by (simp only: k deal_times.simps step)
    finally show ?thesis .
  qed
qed

section \<open>Looking up and removing cards\<close>

lemma find_card_None: "find_card fld i = None \<longleftrightarrow> i \<notin> card_id ` set fld"
  by (induction fld) auto

lemma find_card_Some: "find_card fld i = Some c \<Longrightarrow> c \<in> set fld \<and> card_id c = i"
  by (induction fld) (auto split: if_splits)

lemma get_card_by_id_None: "get_card_by_id g i = None \<longleftrightarrow> i \<notin> card_id ` set (field g)"
  by (simp add: get_card_by_id_def find_card_None)

lemma remove_cards_None:
  "remove_cards fld cs = (None, fld') \<Longrightarrow>
     fld' = foldl (\<lambda>f c. remove1 c f) fld cs \<and> length fld' + length cs = length fld"
proof (induction cs arbitrary: fld)
  case Nil
  then show ?case by simp
next
  case (Cons c cs)
  from Cons.prems have mem: "c \<in> set fld"
    and rest: "remove_cards (remove1 c fld) cs = (None, fld')"
    by (auto split: if_splits)
  from mem have "0 < length fld" by (rule length_pos_if_in_set)
  with mem have "length (remove1 c fld) + 1 = length fld" by (simp add: length_remove1)
  with Cons.IH [OF rest] show ?case by auto
qed

lemma remove_cards_three:
  assumes "remove_cards fld [c0, c1, c2] = (None, fld')"
  shows "fld' = remove1 c2 (remove1 c1 (remove1 c0 fld)) \<and> length fld' + 3 = length fld"
  using remove_cards_None [OF assms] by auto

lemma set_remove_cards: "set (snd (remove_cards fld cs)) \<subseteq> set fld"
proof (induction cs arbitrary: fld)
  case Nil
  show ?case by simp
next
  case (Cons c cs)
  show ?case
  proof (cases "c \<in> set fld")
    case True
    have "set (snd (remove_cards (remove1 c fld) cs)) \<subseteq> set (remove1 c fld)" by (rule Cons.IH)
    also have "\<dots> \<subseteq> set fld" by (rule set_remove1_subset)
    finally show ?thesis using True by simp
  next
    case False
    then show ?thesis by simp
  qed
qed

lemma length_remove_cards: "length (snd (remove_cards fld cs)) \<le> length fld"
proof (induction cs arbitrary: fld)
  case Nil
  show ?case by simp
next
  case (Cons c cs)
  show ?case
  proof (cases "c \<in> set fld")
    case True
    have "length (snd (remove_cards (remove1 c fld) cs)) \<le> length (remove1 c fld)"
      by (rule Cons.IH)
    also have "\<dots> \<le> length fld" by (simp add: length_remove1)
    finally show ?thesis using True by simp
  next
    case False
    then show ?thesis by simp
  qed
qed

section \<open>The branches of \<open>pick_set\<close>\<close>

lemma pick_set_wrong_count:
  "length card_ids \<noteq> 3 \<Longrightarrow> pick_set g tok card_ids = read_score g tok"
  by (simp add: pick_set_def)

lemma pick_set_not_found:
  "i \<in> set card_ids \<Longrightarrow> i \<notin> card_id ` set (field g) \<Longrightarrow>
     pick_set g tok card_ids = read_score g tok"
proof -
  assume "i \<in> set card_ids" and "i \<notin> card_id ` set (field g)"
  then have "None \<in> set (map (get_card_by_id g) card_ids)"
    using get_card_by_id_None [of g i] by force
  then show ?thesis by (simp add: pick_set_def Let_def)
qed

lemma pick_set_found:
  assumes "get_card_by_id g i0 = Some c0" "get_card_by_id g i1 = Some c1"
    "get_card_by_id g i2 = Some c2"
  shows "pick_set g tok [i0, i1, i2] =
     (if is_valid_set c0 c1 c2 then
        (case remove_cards (field g) [c0, c1, c2] of
           (Some e, fld) \<Rightarrow> (Inl e, g\<lparr>field := fld\<rparr>)
         | (None, fld) \<Rightarrow>
             (case players g tok of
                None \<Rightarrow> (Inl KeyError, g\<lparr>field := fld\<rparr>)
              | Some s \<Rightarrow>
                  (Inr (True, s + 1),
                   check_ended (refill (g\<lparr>field := fld, players := (players g)(tok \<mapsto> s + 1)\<rparr>)))))
      else
        (case players g tok of
           None \<Rightarrow> (Inl KeyError, g)
         | Some s \<Rightarrow> (Inr (False, s - 1), g\<lparr>players := (players g)(tok \<mapsto> s - 1)\<rparr>)))"
  using assms by (simp add: pick_set_def Let_def split: option.splits prod.splits)

lemma three_ids:
  "length (card_ids :: int list) = 3 \<Longrightarrow> \<exists>i0 i1 i2. card_ids = [i0, i1, i2]"
  by (auto simp: numeral_3_eq_3 length_Suc_conv)

text \<open>Every call is one of the two early returns or finds its three cards.\<close>

lemma pick_set_cases:
  obtains (rejected) "length card_ids \<noteq> 3 \<or> \<not> set card_ids \<subseteq> card_id ` set (field g)"
      "pick_set g tok card_ids = read_score g tok"
  | (found) i0 i1 i2 c0 c1 c2 where "card_ids = [i0, i1, i2]"
      "get_card_by_id g i0 = Some c0" "get_card_by_id g i1 = Some c1"
      "get_card_by_id g i2 = Some c2"
proof (cases "length card_ids \<noteq> 3 \<or> \<not> set card_ids \<subseteq> card_id ` set (field g)")
  case True
  then have "pick_set g tok card_ids = read_score g tok"
    using pick_set_wrong_count pick_set_not_found by blast
  with True show ?thesis by (rule rejected)
next
  case False
  then obtain i0 i1 i2 where ids: "card_ids = [i0, i1, i2]" using three_ids by blast
  with False have "i0 \<in> card_id ` set (field g)" "i1 \<in> card_id ` set (field g)"
    "i2 \<in> card_id ` set (field g)" by auto
  then obtain c0 c1 c2 where "get_card_by_id g i0 = Some c0" "get_card_by_id g i1 = Some c1"
    "get_card_by_id g i2 = Some c2"
    using get_card_by_id_None by (metis not_Some_eq)
  with ids show ?thesis by (rule found)
qed

section \<open>Reading the score; the concrete rooms\<close>

lemma read_score_joined: "players g tok = Some s \<Longrightarrow> read_score g tok = (Inr (False, s), g)"
  by (simp add: read_score_def)

lemma players_GameRoom_init: "players (GameRoom_init rnd gid) = Map.empty"
  by (simp add: GameRoom_init_def deal_initial_cards_def initialize_deck_def players_deal_times)

lemma players_joined_room: "players joined_room ''alice'' = Some 0"
  by (simp add: joined_room_def fresh_room_def add_player_def players_GameRoom_init)

lemma field_joined_room: "field joined_room = field fresh_room"
  by (simp add: joined_room_def add_player_def)

lemma deck_joined_room: "deck joined_room = deck fresh_room"
  by (simp add: joined_room_def add_player_def)

lemma field_check_ended: "field (check_ended g) = field g"
  by (simp add: check_ended_def)

lemma deck_check_ended: "deck (check_ended g) = deck g"
  by (simp add: check_ended_def)

lemma players_check_ended: "players (check_ended g) = players g"
  by (simp add: check_ended_def)

lemma players_refill: "players (refill g) = players g"
  by (simp add: refill_deal_times players_deal_times)

text \<open>
  Claim C10. A call of \<open>pick_set\<close> by a joined token whose id list does not have
  exactly 3 elements, or has an id that is on no card of the field, returns false and
  the caller's current score, and leaves the whole room (deck, field, status and every
  score) as it was: no penalty is applied.
\<close>

theorem pick_set_rejected_unchanged:
  assumes "players g tok = Some s"
    and "length card_ids \<noteq> 3 \<or> \<not> set card_ids \<subseteq> card_id ` set (field g)"
  shows "pick_set g tok card_ids = (Inr (False, s), g)"
proof -
  have "pick_set g tok card_ids = read_score g tok"
    using assms(2) pick_set_wrong_count pick_set_not_found by blast
  with assms(1) show ?thesis by (simp add: read_score_joined)
qed

theorem pick_set_rejected_unchanged_witness:
  "players joined_room ''alice'' = Some 0 \<and>
   pick_set joined_room ''alice'' [80, 79] = (Inr (False, 0), joined_room) \<and>
   \<not> set [80, 79, 5] \<subseteq> card_id ` set (field joined_room) \<and>
   pick_set joined_room ''alice'' [80, 79, 5] = (Inr (False, 0), joined_room)"
proof -
  have absent: "\<not> set [80, 79, 5] \<subseteq> card_id ` set (field joined_room)"
    unfolding field_joined_room fresh_room_def by code_simp
  show ?thesis
    using pick_set_rejected_unchanged [OF players_joined_room, of "[80, 79]"]
      pick_set_rejected_unchanged [OF players_joined_room, of "[80, 79, 5]"] absent
      players_joined_room
    by simp
qed

section \<open>What a returning call does to the field and the deck\<close>

lemma pick_set_returns_False:
  assumes "pick_set g tok card_ids = (Inr (False, n), g')"
  shows "field g' = field g \<and> deck g' = deck g \<and> status g' = status g"
proof (cases rule: pick_set_cases [of card_ids g tok])
  case rejected
  with assms show ?thesis by (auto simp: read_score_def split: option.splits)
next
  case (found i0 i1 i2 c0 c1 c2)
  with assms show ?thesis
    by (auto simp: pick_set_found split: if_splits option.splits prod.splits)
qed

lemma pick_set_returns_True:
  assumes "pick_set g tok card_ids = (Inr (True, n), g')"
  obtains c0 c1 c2 s fld where
    "card_ids = [card_id c0, card_id c1, card_id c2]"
    "c0 \<in> set (field g)" "c1 \<in> set (field g)" "c2 \<in> set (field g)"
    "is_valid_set c0 c1 c2"
    "remove_cards (field g) [c0, c1, c2] = (None, fld)"
    "players g tok = Some s" "n = s + 1"
    "g' = check_ended (refill (g\<lparr>field := fld, players := (players g)(tok \<mapsto> s + 1)\<rparr>))"
proof (cases rule: pick_set_cases [of card_ids g tok])
  case rejected
  with assms show ?thesis by (auto simp: read_score_def split: option.splits)
next
  case (found i0 i1 i2 c0 c1 c2)
  have mem: "c0 \<in> set (field g) \<and> card_id c0 = i0" "c1 \<in> set (field g) \<and> card_id c1 = i1"
    "c2 \<in> set (field g) \<and> card_id c2 = i2"
    using found(2-4) by (simp_all add: get_card_by_id_def find_card_Some)
  from assms found obtain s fld where
    "is_valid_set c0 c1 c2" "remove_cards (field g) [c0, c1, c2] = (None, fld)"
    "players g tok = Some s" "n = s + 1"
    "g' = check_ended (refill (g\<lparr>field := fld, players := (players g)(tok \<mapsto> s + 1)\<rparr>))"
    by (auto simp: pick_set_found split: if_splits option.splits prod.splits)
  with mem found(1) show ?thesis by (intro that [of c0 c1 c2 fld s]) auto
qed

text \<open>
  Claim C7. A call of \<open>pick_set\<close> that returns true removes the three submitted cards
  from the field (three list elements, the cards found for the three ids) and then
  appends to the field the cards \<open>dealt\<close> popped one at a time from the end of the
  deck, as many as it takes for the field to reach 12 cards or the deck to be empty;
  the deck loses exactly these cards. A call that returns false leaves the field (and
  the deck) unchanged.
\<close>

theorem pick_set_field_and_deck:
  "(pick_set g tok card_ids = (Inr (True, n), g') \<longrightarrow>
      (\<exists>c0 c1 c2 removed dealt.
         card_ids = [card_id c0, card_id c1, card_id c2] \<and>
         c0 \<in> set (field g) \<and> c1 \<in> set (field g) \<and> c2 \<in> set (field g) \<and>
         removed = remove1 c2 (remove1 c1 (remove1 c0 (field g))) \<and>
         length removed + 3 = length (field g) \<and>
         field g' = removed @ dealt \<and>
         deck g = deck g' @ rev dealt \<and>
         length dealt = min (12 - length removed) (length (deck g)) \<and>
         (12 \<le> length (field g') \<or> deck g' = []))) \<and>
   (pick_set g tok card_ids = (Inr (False, n), g') \<longrightarrow>
      field g' = field g \<and> deck g' = deck g)"
proof (rule conjI)
  show "pick_set g tok card_ids = (Inr (False, n), g') \<longrightarrow>
      field g' = field g \<and> deck g' = deck g"
    using pick_set_returns_False by blast
next
  show "pick_set g tok card_ids = (Inr (True, n), g') \<longrightarrow>
      (\<exists>c0 c1 c2 removed dealt.
         card_ids = [card_id c0, card_id c1, card_id c2] \<and>
         c0 \<in> set (field g) \<and> c1 \<in> set (field g) \<and> c2 \<in> set (field g) \<and>
         removed = remove1 c2 (remove1 c1 (remove1 c0 (field g))) \<and>
         length removed + 3 = length (field g) \<and>
         field g' = removed @ dealt \<and>
         deck g = deck g' @ rev dealt \<and>
         length dealt = min (12 - length removed) (length (deck g)) \<and>
         (12 \<le> length (field g') \<or> deck g' = []))"
  proof
  assume ret: "pick_set g tok card_ids = (Inr (True, n), g')"
  from ret obtain c0 c1 c2 s fld where
    ids: "card_ids = [card_id c0, card_id c1, card_id c2]"
    and mem: "c0 \<in> set (field g)" "c1 \<in> set (field g)" "c2 \<in> set (field g)"
    and rem: "remove_cards (field g) [c0, c1, c2] = (None, fld)"
    and g': "g' = check_ended (refill (g\<lparr>field := fld, players := (players g)(tok \<mapsto> s + 1)\<rparr>))"
    by (rule pick_set_returns_True)
  let ?g1 = "g\<lparr>field := fld, players := (players g)(tok \<mapsto> s + 1)\<rparr>"
  let ?k = "min (12 - length fld) (length (deck g))"
  let ?dealt = "take ?k (rev (deck g))"
  have fld: "fld = remove1 c2 (remove1 c1 (remove1 c0 (field g)))"
    and len: "length fld + 3 = length (field g)"
    using remove_cards_three [OF rem] by blast+
  have refill: "refill ?g1 = deal_times ?k ?g1" by (simp add: refill_deal_times)
  have f': "field g' = fld @ ?dealt"
    by (simp add: g' field_check_ended refill field_deal_times)
  have d': "deck g' = deck (deal_times ?k ?g1)"
    by (simp add: g' deck_check_ended refill)
  have split: "deck g = deck g' @ rev ?dealt"
    using deck_split_deal_times [of ?g1 ?k] by (simp add: d')
  have ld: "length ?dealt = ?k" by simp
  have full: "12 \<le> length (field g') \<or> deck g' = []"
  proof (cases "12 - length fld \<le> length (deck g)")
    case True
    then have "?k = 12 - length fld" by simp
    then have "length (field g') = length fld + (12 - length fld)" by (simp add: f')
    then show ?thesis by arith
  next
    case False
    then have "?k = length (deck g)" by simp
    then show ?thesis by (simp add: d' deck_deal_times)
  qed
  show "\<exists>c0 c1 c2 removed dealt.
         card_ids = [card_id c0, card_id c1, card_id c2] \<and>
         c0 \<in> set (field g) \<and> c1 \<in> set (field g) \<and> c2 \<in> set (field g) \<and>
         removed = remove1 c2 (remove1 c1 (remove1 c0 (field g))) \<and>
         length removed + 3 = length (field g) \<and>
         field g' = removed @ dealt \<and>
         deck g = deck g' @ rev dealt \<and>
         length dealt = min (12 - length removed) (length (deck g)) \<and>
         (12 \<le> length (field g') \<or> deck g' = [])"
    using ids mem fld len f' split ld full by blast
  qed
qed

section \<open>The constructed deck\<close>

lemma length_ordered_deck: "length (ordered_deck []) = 81"
  by code_simp

lemma ids_ordered_deck: "map card_id (ordered_deck []) = [0..80]"
  by code_simp

lemma distinct_attributes_ordered_deck: "distinct (map attributes (ordered_deck []))"
  by code_simp

lemma attributes_ordered_deck: "map attributes (ordered_deck []) = attribute_loops"
  by code_simp

lemma set_attribute_loops:
  "set attribute_loops = {1, 2, 3} \<times> {1, 2, 3} \<times> {1, 2, 3} \<times> {1, 2, 3}"
  unfolding attribute_loops_def by auto

section \<open>The shuffle permutes\<close>

lemma length_shuffle_loop: "length (shuffle_loop rnd i x) = length x"
  by (induction i arbitrary: x) (simp_all add: Let_def)

lemma set_shuffle_loop: "i \<le> length x - 1 \<Longrightarrow> set (shuffle_loop rnd i x) = set x"
proof (induction i arbitrary: x)
  case 0
  show ?case by simp
next
  case (Suc i)
  let ?j = "rnd (Suc i) mod (Suc i + 1)"
  let ?x = "x[Suc i := x ! ?j, ?j := x ! Suc i]"
  from Suc.prems have i: "Suc i < length x" by simp
  have "?j < Suc i + 1" by (rule mod_less_divisor) simp
  with i have j: "?j < length x" by linarith
  have "set (shuffle_loop rnd i ?x) = set ?x" using i by (intro Suc.IH) simp
  also have "\<dots> = set x" using i j by (rule set_swap)
  finally show ?case by (simp add: Let_def)
qed

lemma distinct_shuffle_loop:
  "i \<le> length x - 1 \<Longrightarrow> distinct (shuffle_loop rnd i x) = distinct x"
proof (induction i arbitrary: x)
  case 0
  show ?case by simp
next
  case (Suc i)
  let ?j = "rnd (Suc i) mod (Suc i + 1)"
  let ?x = "x[Suc i := x ! ?j, ?j := x ! Suc i]"
  from Suc.prems have i: "Suc i < length x" by simp
  have "?j < Suc i + 1" by (rule mod_less_divisor) simp
  with i have j: "?j < length x" by linarith
  have "distinct (shuffle_loop rnd i ?x) = distinct ?x" using i by (intro Suc.IH) simp
  also have "\<dots> = distinct x" using i j by (rule distinct_swap)
  finally show ?case by (simp add: Let_def)
qed

lemma length_shuffle: "length (shuffle rnd x) = length x"
  by (simp add: shuffle_def length_shuffle_loop)

lemma set_shuffle: "set (shuffle rnd x) = set x"
  by (simp add: shuffle_def set_shuffle_loop)

lemma distinct_shuffle: "distinct (shuffle rnd x) = distinct x"
  by (simp add: shuffle_def distinct_shuffle_loop)

lemma distinct_map_shuffle: "distinct (map f (shuffle rnd x)) = distinct (map f x)"
  by (simp add: distinct_map distinct_shuffle set_shuffle)

section \<open>Dealing moves cards from the deck to the field\<close>

lemma set_cards_deal_times: "set (cards_in_play (deal_times n g)) = set (cards_in_play g)"
proof -
  have "set (take n (rev (deck g))) \<union> set (drop n (rev (deck g))) = set (rev (deck g))"
    by (simp flip: set_append)
  then show ?thesis by (auto simp: cards_in_play_def deal_times_closed)
qed

lemma length_cards_deal_times:
  "length (cards_in_play (deal_times n g)) = length (cards_in_play g)"
  by (simp add: cards_in_play_def deal_times_closed)

lemma distinct_cards_deal_if_any:
  "distinct (map f (cards_in_play (deal_if_any g))) = distinct (map f (cards_in_play g))"
proof (cases "deck g" rule: rev_cases)
  case Nil
  then show ?thesis by (simp add: deal_if_any_Nil)
next
  case (snoc ys y)
  then show ?thesis by (auto simp: cards_in_play_def deal_if_any_snoc)
qed

lemma distinct_cards_deal_times:
  "distinct (map f (cards_in_play (deal_times n g))) = distinct (map f (cards_in_play g))"
  by (induction n arbitrary: g) (simp_all add: distinct_cards_deal_if_any)

section \<open>The room after construction\<close>

lemma cards_initialize_deck:
  "deck g = [] \<Longrightarrow> field g = [] \<Longrightarrow>
     cards_in_play (initialize_deck rnd g) = shuffle rnd (ordered_deck [])"
  by (simp add: cards_in_play_def initialize_deck_def)

lemma cards_GameRoom_init:
  "set (cards_in_play (GameRoom_init rnd gid)) = set (ordered_deck [])"
  "length (cards_in_play (GameRoom_init rnd gid)) = 81"
  "distinct (map f (cards_in_play (GameRoom_init rnd gid))) = distinct (map f (ordered_deck []))"
  by (simp_all add: GameRoom_init_def deal_initial_cards_def set_cards_deal_times
      length_cards_deal_times distinct_cards_deal_times cards_initialize_deck set_shuffle
      length_shuffle distinct_map_shuffle length_ordered_deck)

lemma length_field_GameRoom_init: "length (field (GameRoom_init rnd gid)) = 12"
  by (simp add: GameRoom_init_def deal_initial_cards_def field_deal_times initialize_deck_def
      length_shuffle length_ordered_deck)

lemma length_deck_GameRoom_init: "length (deck (GameRoom_init rnd gid)) = 69"
  by (simp add: GameRoom_init_def deal_initial_cards_def deck_deal_times initialize_deck_def
      length_shuffle length_ordered_deck)

lemma status_GameRoom_init: "status (GameRoom_init rnd gid) = ''ongoing''"
  by (simp add: GameRoom_init_def deal_initial_cards_def status_deal_times initialize_deck_def)

text \<open>
  Claim C8. Right after construction, whatever the shuffle drew, the deck together with
  the field holds exactly 81 cards, the attribute combinations of these cards are
  pairwise different and are all the combinations of four values from 1, 2, 3 (so each
  combination is there exactly once), the field has 12 cards, the deck has 69, and the
  status is "ongoing".
\<close>

theorem GameRoom_init_state:
  "length (deck (GameRoom_init rnd gid) @ field (GameRoom_init rnd gid)) = 81 \<and>
   distinct (map attributes (deck (GameRoom_init rnd gid) @ field (GameRoom_init rnd gid))) \<and>
   set (map attributes (deck (GameRoom_init rnd gid) @ field (GameRoom_init rnd gid))) =
     {1, 2, 3} \<times> {1, 2, 3} \<times> {1, 2, 3} \<times> {1, 2, 3} \<and>
   length (field (GameRoom_init rnd gid)) = 12 \<and>
   length (deck (GameRoom_init rnd gid)) = 69 \<and>
   status (GameRoom_init rnd gid) = ''ongoing''"
proof -
  let ?g = "GameRoom_init rnd gid"
  have cards: "deck ?g @ field ?g = cards_in_play ?g" by (simp add: cards_in_play_def)
  have "set (map attributes (cards_in_play ?g)) = set (map attributes (ordered_deck []))"
    by (simp add: cards_GameRoom_init(1))
  then have all: "set (map attributes (cards_in_play ?g)) =
      {1, 2, 3} \<times> {1, 2, 3} \<times> {1, 2, 3} \<times> {1, 2, 3}"
    by (simp only: attributes_ordered_deck set_attribute_loops)
  have once: "distinct (map attributes (cards_in_play ?g))"
    by (simp only: cards_GameRoom_init(3) distinct_attributes_ordered_deck)
  have len: "length (cards_in_play ?g) = 81" by (rule cards_GameRoom_init(2))
  show ?thesis
    unfolding cards
    by (intro conjI len once all length_field_GameRoom_init length_deck_GameRoom_init
        status_GameRoom_init)
qed

lemma length_field_joined_room: "length (field joined_room) = 12"
  by (simp add: field_joined_room fresh_room_def length_field_GameRoom_init)

lemma length_deck_joined_room: "length (deck joined_room) = 69"
  by (simp add: deck_joined_room fresh_room_def length_deck_GameRoom_init)

lemma pick_set_joined_room_hit:
  "pick_set joined_room ''alice'' [80, 79, 78] = (Inr (True, 1), picked_room)"
proof -
  have "fst (pick_set joined_room ''alice'' [80, 79, 78]) = Inr (True, 1)"
    unfolding joined_room_def fresh_room_def by code_simp
  then show ?thesis by (simp add: picked_room_def prod_eq_iff)
qed

lemma pick_set_joined_room_miss:
  "pick_set joined_room ''alice'' [80, 79, 77] = (Inr (False, - 1), missed_room)"
proof -
  have "fst (pick_set joined_room ''alice'' [80, 79, 77]) = Inr (False, - 1)"
    unfolding joined_room_def fresh_room_def by code_simp
  then show ?thesis by (simp add: missed_room_def prod_eq_iff)
qed

theorem pick_set_field_and_deck_witness:
  "pick_set joined_room ''alice'' [80, 79, 78] = (Inr (True, 1), picked_room) \<and>
   length (field picked_room) = 12 \<and>
   length (deck picked_room) = 66 \<and>
   pick_set joined_room ''alice'' [80, 79, 77] = (Inr (False, - 1), missed_room) \<and>
   field missed_room = field joined_room"
proof -
  note hit = pick_set_joined_room_hit and miss = pick_set_joined_room_miss
  from hit pick_set_field_and_deck [of joined_room "''alice''" "[80, 79, 78]" 1 picked_room]
  obtain removed dealt where
    r: "length removed + 3 = length (field joined_room)"
    and f: "field picked_room = removed @ dealt"
    and d: "deck joined_room = deck picked_room @ rev dealt"
    and l: "length dealt = min (12 - length removed) (length (deck joined_room))"
    by blast
  from r have lr: "length removed = 9" by (simp add: length_field_joined_room)
  from l have ld: "length dealt = 3" by (simp add: lr length_deck_joined_room)
  have lf: "length (field picked_room) = 12" by (simp add: f lr ld)
  have "length (deck joined_room) = length (deck picked_room) + length dealt"
    by (subst d) simp
  then have lk: "length (deck picked_room) = 66" by (simp add: ld length_deck_joined_room)
  from miss pick_set_field_and_deck [of joined_room "''alice''" "[80, 79, 77]" "- 1" missed_room]
  have same: "field missed_room = field joined_room" by blast
  show ?thesis by (intro conjI hit lf lk miss same)
qed

section \<open>Entering a room\<close>

text \<open>
  Claim C9. For a room id that is not in the room map, \<open>enter_game\<close> returns false and
  leaves the whole server state as it was: the current room of every identity and the
  participants of every room are unchanged. For a registered token the endpoint answers
  with the failure "Game not found", again without changing the state.
\<close>

theorem enter_game_unknown_room:
  assumes "games s gid = None"
  shows "enter_game s tok gid = (Inr False, s) \<and>
    (verify_token s tok \<longrightarrow> enter_room s tok gid = (Failure ''Game not found'', s))"
  using assms by (simp add: enter_game_def enter_room_def)

lemma enter_game_no_exception: "verify_token s tok \<Longrightarrow> fst (enter_game s tok gid) \<noteq> Inl e"
  by (auto simp: verify_token_def enter_game_def split: option.splits)

lemma users_lobby:
  "users lobby ''alice'' = Some \<lparr>nickname = ''Alice'', password = ''pw'', current_game_id = Some 0\<rparr>"
  by (simp add: lobby_def enter_game_def create_game_def register_user_def ServerState_init_def
      Let_def)

lemma games_lobby: "games lobby 7 = None"
  by (simp add: lobby_def enter_game_def create_game_def register_user_def ServerState_init_def
      Let_def)

theorem enter_game_unknown_room_witness:
  "games lobby 7 = None \<and> verify_token lobby ''alice'' \<and>
   enter_game lobby ''alice'' 7 = (Inr False, lobby) \<and>
   enter_room lobby ''alice'' 7 = (Failure ''Game not found'', lobby) \<and>
   get_user_game (snd (enter_room lobby ''alice'' 7)) ''alice'' = Inr (games lobby 0)"
proof -
  have v: "verify_token lobby ''alice''" by (simp add: verify_token_def users_lobby domIff)
  have cur: "get_user_game lobby ''alice'' = Inr (games lobby 0)"
    by (simp add: get_user_game_def users_lobby)
  from enter_game_unknown_room [OF games_lobby, of "''alice''"] v games_lobby cur
  show ?thesis by simp
qed

section \<open>Score updates\<close>

lemma players_add_cards: "players (add_cards g) = players g"
  by (simp add: add_cards_def players_deal_times)

lemma players_add_player:
  "players (add_player g t) = (if players g t = None then (players g)(t \<mapsto> 0) else players g)"
  by (simp add: add_player_def domIff)

lemma pick_set_score:
  assumes "players g tok = Some s" and "pick_set g tok card_ids = (Inr (m, n), g')"
  shows "players g' = (players g)(tok \<mapsto> n) \<and>
    n = (if m then s + 1
         else if length card_ids = 3 \<and> set card_ids \<subseteq> card_id ` set (field g) then s - 1
         else s)"
proof (cases rule: pick_set_cases [of card_ids g tok])
  case rejected
  with assms show ?thesis by (auto simp: read_score_def)
next
  case (found i0 i1 i2 c0 c1 c2)
  have "set card_ids \<subseteq> card_id ` set (field g)"
    using found by (auto simp: get_card_by_id_def dest!: find_card_Some)
  with found(1) have all: "length card_ids = 3 \<and> set card_ids \<subseteq> card_id ` set (field g)"
    by simp
  from assms found have "players g' = (players g)(tok \<mapsto> n) \<and> n = (if m then s + 1 else s - 1)"
    by (auto simp: pick_set_found players_check_ended players_refill
        split: if_splits option.splits prod.splits)
  with all show ?thesis by simp
qed

text \<open>
  Claim C3, as the code has it. When \<open>pick_set\<close>, called by a joined token, returns
  the flag \<open>m\<close> and the integer \<open>n\<close>: \<open>n\<close> is the caller's score after the call;
  it is the previous score plus 1 when \<open>m\<close> is true; when \<open>m\<close> is false it is the
  previous score minus 1 if the call had three ids that are all on the field, and the
  previous score itself if it had not (the two early returns apply no penalty). The call
  changes nobody else's score; \<open>add_cards\<close> changes no score; \<open>add_player\<close> changes
  no score of a token that has joined.
\<close>

theorem pick_set_score_update:
  assumes "players g tok = Some s" and "pick_set g tok card_ids = (Inr (m, n), g')"
  shows "players g' tok = Some n \<and>
    (m \<longrightarrow> n = s + 1) \<and>
    (\<not> m \<and> length card_ids = 3 \<and> set card_ids \<subseteq> card_id ` set (field g) \<longrightarrow> n = s - 1) \<and>
    (\<not> m \<and> \<not> (length card_ids = 3 \<and> set card_ids \<subseteq> card_id ` set (field g)) \<longrightarrow> n = s) \<and>
    (\<forall>other. other \<noteq> tok \<longrightarrow> players g' other = players g other) \<and>
    players (add_cards g) = players g \<and>
    (\<forall>t. players (add_player g t) tok = players g tok)"
  using pick_set_score [OF assms] assms(1)
  by (simp add: players_add_cards players_add_player)

lemma ids_field_fresh_room:
  "map card_id (field fresh_room) = [80, 79, 78, 77, 76, 75, 74, 73, 72, 71, 70, 69]"
  unfolding fresh_room_def by code_simp

lemma ids_field_joined_room:
  "card_id ` set (field joined_room) = {80, 79, 78, 77, 76, 75, 74, 73, 72, 71, 70, 69}"
proof -
  have "card_id ` set (field joined_room) = set (map card_id (field fresh_room))"
    by (simp add: field_joined_room)
  then show ?thesis by (simp add: ids_field_fresh_room)
qed

theorem pick_set_score_update_witness:
  "players joined_room ''alice'' = Some 0 \<and>
   pick_set joined_room ''alice'' [80, 79, 78] = (Inr (True, 1), picked_room) \<and>
   players picked_room ''alice'' = Some 1 \<and>
   set [80, 79, 77] \<subseteq> card_id ` set (field joined_room) \<and>
   pick_set joined_room ''alice'' [80, 79, 77] = (Inr (False, - 1), missed_room) \<and>
   players missed_room ''alice'' = Some (- 1)"
proof -
  have on_field: "set [80, 79, 77] \<subseteq> card_id ` set (field joined_room)"
    by (simp add: ids_field_joined_room)
  have hit: "players picked_room ''alice'' = Some 1"
    using pick_set_score_update [OF players_joined_room pick_set_joined_room_hit] by blast
  have miss: "players missed_room ''alice'' = Some (- 1)"
    using pick_set_score_update [OF players_joined_room pick_set_joined_room_miss] by blast
  show ?thesis
    by (intro conjI players_joined_room pick_set_joined_room_hit hit on_field
        pick_set_joined_room_miss miss)
qed

text \<open>
  The claim C3 as written fails: a call with two ids returns false, and the caller's
  score, 0 before the call, is 0 after it, not -1.
\<close>

theorem pick_set_no_penalty_counterexample:
  "players joined_room ''alice'' = Some 0 \<and>
   fst (pick_set joined_room ''alice'' [80, 79]) = Inr (False, 0) \<and>
   players (snd (pick_set joined_room ''alice'' [80, 79])) ''alice'' \<noteq> Some (0 - 1)"
proof -
  have "pick_set joined_room ''alice'' [80, 79] = read_score joined_room ''alice''"
    by (rule pick_set_wrong_count) simp
  then have "pick_set joined_room ''alice'' [80, 79] = (Inr (False, 0), joined_room)"
    by (simp add: read_score_joined [OF players_joined_room])
  then show ?thesis by (simp add: players_joined_room)
qed

section \<open>Sequences of operations\<close>

lemma run_Nil: "run g [] = g"
  by (simp add: run_def)

lemma run_Cons: "run g (op # ops) = run (apply_op g op) ops"
  by (simp add: run_def)

lemma joined_room_run: "joined_room = run (GameRoom_init no_swap 0) [AddPlayer ''alice'']"
  by (simp add: joined_room_def fresh_room_def run_def)

section \<open>What one call can do to the field and the deck\<close>

text \<open>
  Whatever a call of \<open>pick_set\<close> produces, it leaves the room in one of three shapes:
  untouched but for the scores; with some cards removed from the field (the two
  exceptions of the matching branch); or with three cards removed, the score raised,
  the field refilled and the end checked.
\<close>

lemma pick_set_room_cases:
  obtains (same) ps where "snd (pick_set g tok card_ids) = g\<lparr>players := ps\<rparr>"
  | (removed) cs where "snd (pick_set g tok card_ids) = g\<lparr>field := snd (remove_cards (field g) cs)\<rparr>"
  | (matched) c0 c1 c2 fld s where
      "remove_cards (field g) [c0, c1, c2] = (None, fld)"
      "snd (pick_set g tok card_ids) =
         check_ended (refill (g\<lparr>field := fld, players := (players g)(tok \<mapsto> s + 1)\<rparr>))"
proof (cases rule: pick_set_cases [of card_ids g tok])
  case rejected
  then have "snd (pick_set g tok card_ids) = g\<lparr>players := players g\<rparr>"
    by (simp add: read_score_def split: option.splits)
  then show ?thesis by (rule same)
next
  case (found i0 i1 i2 c0 c1 c2)
  note eq = pick_set_found [OF found(2-4), of tok]
  show ?thesis
  proof (cases "is_valid_set c0 c1 c2")
    case False
    show ?thesis
    proof (cases "players g tok")
      case None
      with False have "snd (pick_set g tok card_ids) = g\<lparr>players := players g\<rparr>"
        by (simp add: found(1) eq)
      then show ?thesis by (rule same)
    next
      case (Some s)
      with False have "snd (pick_set g tok card_ids) = g\<lparr>players := (players g)(tok \<mapsto> s - 1)\<rparr>"
        by (simp add: found(1) eq)
      then show ?thesis by (rule same)
    qed
  next
    case True
    obtain e fld where rc: "remove_cards (field g) [c0, c1, c2] = (e, fld)"
      by (cases "remove_cards (field g) [c0, c1, c2]")
    show ?thesis
    proof (cases "e = None \<and> players g tok \<noteq> None")
      case False
      then have "snd (pick_set g tok card_ids) = g\<lparr>field := fld\<rparr>"
        using True rc by (auto simp add: found(1) eq split: option.splits)
      then have "snd (pick_set g tok card_ids) =
          g\<lparr>field := snd (remove_cards (field g) [c0, c1, c2])\<rparr>"
        by (simp only: rc snd_conv)
      then show ?thesis by (rule removed)
    next
      case ok: True
      then obtain s where s: "players g tok = Some s" by blast
      from ok rc have rc': "remove_cards (field g) [c0, c1, c2] = (None, fld)" by simp
      have "snd (pick_set g tok card_ids) =
          check_ended (refill (g\<lparr>field := fld, players := (players g)(tok \<mapsto> s + 1)\<rparr>))"
        using True rc' s by (simp add: found(1) eq)
      with rc' show ?thesis by (rule matched)
    qed
  qed
qed

section \<open>The size of the field\<close>

lemma length_field_deal_times:
  "length (field (deal_times n g)) = length (field g) + min n (length (deck g))"
  by (simp add: field_deal_times min.commute)

lemma length_field_refill: "length (field (refill g)) \<le> max 12 (length (field g))"
  by (simp add: refill_deal_times length_field_deal_times)

lemma length_field_pick_set:
  "length (field (snd (pick_set g tok card_ids))) \<le> max 12 (length (field g))"
proof (cases rule: pick_set_room_cases [of g tok card_ids])
  case (same ps)
  then show ?thesis by simp
next
  case (removed cs)
  then show ?thesis using length_remove_cards [of "field g" cs] by simp
next
  case (matched c0 c1 c2 fld s)
  let ?g1 = "g\<lparr>field := fld, players := (players g)(tok \<mapsto> s + 1)\<rparr>"
  have "length fld \<le> length (field g)"
    using length_remove_cards [of "field g" "[c0, c1, c2]"] matched(1) by simp
  moreover have "length (field (refill ?g1)) \<le> max 12 (length (field ?g1))"
    by (rule length_field_refill)
  ultimately show ?thesis by (simp add: matched(2) field_check_ended)
qed

lemma length_field_apply_op:
  "length (field (apply_op g op)) \<le>
     max 12 (length (field g)) + (if op = AddCards then 3 else 0)"
proof (cases op)
  case (Pick tok card_ids)
  then show ?thesis using length_field_pick_set [of g tok card_ids] by simp
next
  case AddCards
  then show ?thesis by (simp add: add_cards_def length_field_deal_times)
next
  case (AddPlayer tok)
  then show ?thesis by (simp add: add_player_def)
qed

lemma length_field_run:
  "length (field (run g ops)) \<le> max 12 (length (field g)) + 3 * count_list ops AddCards"
proof (induction ops arbitrary: g)
  case Nil
  show ?case by (simp add: run_Nil)
next
  case (Cons op ops)
  have run: "length (field (run (apply_op g op) ops)) \<le>
      max 12 (length (field (apply_op g op))) + 3 * count_list ops AddCards"
    by (rule Cons.IH)
  show ?case
  proof (cases "op = AddCards")
    case True
    with length_field_apply_op [of g op]
    have "length (field (apply_op g op)) \<le> max 12 (length (field g)) + 3" by simp
    with run have "length (field (run (apply_op g op) ops)) \<le>
        max 12 (length (field g)) + 3 + 3 * count_list ops AddCards" by simp
    with True show ?thesis by (simp add: run_Cons)
  next
    case False
    with length_field_apply_op [of g op]
    have "length (field (apply_op g op)) \<le> max 12 (length (field g))" by simp
    with run have "length (field (run (apply_op g op) ops)) \<le>
        max 12 (length (field g)) + 3 * count_list ops AddCards" by simp
    with False show ?thesis by (simp add: run_Cons)
  qed
qed

section \<open>Cards never come back\<close>

lemma cards_check_ended: "cards_in_play (check_ended g) = cards_in_play g"
  by (simp add: cards_in_play_def check_ended_def)

lemma set_cards_refill: "set (cards_in_play (refill g)) = set (cards_in_play g)"
  by (simp add: refill_deal_times set_cards_deal_times)

lemma length_cards_refill: "length (cards_in_play (refill g)) = length (cards_in_play g)"
  by (simp add: refill_deal_times length_cards_deal_times)

lemma distinct_cards_refill:
  "distinct (map f (cards_in_play (refill g))) = distinct (map f (cards_in_play g))"
  by (simp add: refill_deal_times distinct_cards_deal_times)

lemma distinct_map_remove1: "distinct (map f xs) \<Longrightarrow> distinct (map f (remove1 x xs))"
proof (induction xs)
  case Nil
  show ?case by simp
next
  case (Cons y ys)
  have "set (remove1 x ys) \<subseteq> set ys" by (rule set_remove1_subset)
  with Cons show ?case by auto
qed

lemma distinct_remove_cards:
  "distinct (map f fld) \<Longrightarrow> distinct (map f (snd (remove_cards fld cs)))"
  by (induction cs arbitrary: fld) (simp_all add: distinct_map_remove1)

lemma distinct_cards_remove_cards:
  assumes "distinct (map f (deck g @ field g))"
  shows "distinct (map f (deck g @ snd (remove_cards (field g) cs)))"
proof -
  let ?fld = "snd (remove_cards (field g) cs)"
  from assms have d: "distinct (map f (deck g))" and f: "distinct (map f (field g))"
    and apart: "f ` set (deck g) \<inter> f ` set (field g) = {}"
    by auto
  have "distinct (map f ?fld)" using f by (rule distinct_remove_cards)
  moreover have "f ` set ?fld \<subseteq> f ` set (field g)"
    using set_remove_cards [of "field g" cs] by blast
  ultimately show ?thesis using d apart by auto
qed

text \<open>
  The cards of deck and field after a call of \<open>pick_set\<close> are the deck followed by a
  field from which cards were removed, up to the order in which a refill moves them.
\<close>

lemma cards_pick_set:
  obtains cs where
    "set (cards_in_play (snd (pick_set g tok card_ids))) =
       set (deck g @ snd (remove_cards (field g) cs))"
    "length (cards_in_play (snd (pick_set g tok card_ids))) =
       length (deck g @ snd (remove_cards (field g) cs))"
    "\<And>f. distinct (map f (cards_in_play (snd (pick_set g tok card_ids)))) =
       distinct (map f (deck g @ snd (remove_cards (field g) cs)))"
proof (cases rule: pick_set_room_cases [of g tok card_ids])
  case (same ps)
  then show ?thesis by (intro that [of "[]"]) (simp_all add: cards_in_play_def)
next
  case (removed cs)
  then show ?thesis by (intro that [of cs]) (simp_all add: cards_in_play_def)
next
  case (matched c0 c1 c2 fld s)
  let ?g1 = "g\<lparr>field := fld, players := (players g)(tok \<mapsto> s + 1)\<rparr>"
  have fld: "fld = snd (remove_cards (field g) [c0, c1, c2])"
    by (simp only: matched(1) snd_conv)
  have g1: "cards_in_play ?g1 = deck g @ snd (remove_cards (field g) [c0, c1, c2])"
    by (simp add: cards_in_play_def fld)
  show ?thesis
  proof (rule that [of "[c0, c1, c2]"])
    show "set (cards_in_play (snd (pick_set g tok card_ids))) =
        set (deck g @ snd (remove_cards (field g) [c0, c1, c2]))"
      by (simp only: matched(2) cards_check_ended set_cards_refill g1)
    show "length (cards_in_play (snd (pick_set g tok card_ids))) =
        length (deck g @ snd (remove_cards (field g) [c0, c1, c2]))"
      by (simp only: matched(2) cards_check_ended length_cards_refill g1)
    show "distinct (map f (cards_in_play (snd (pick_set g tok card_ids)))) =
        distinct (map f (deck g @ snd (remove_cards (field g) [c0, c1, c2])))" for f
      by (simp only: matched(2) cards_check_ended distinct_cards_refill g1)
  qed
qed

lemma set_cards_pick_set:
  "set (cards_in_play (snd (pick_set g tok card_ids))) \<subseteq> set (cards_in_play g)"
proof -
  obtain cs where "set (cards_in_play (snd (pick_set g tok card_ids))) =
      set (deck g @ snd (remove_cards (field g) cs))"
    by (rule cards_pick_set)
  then show ?thesis using set_remove_cards [of "field g" cs] by (auto simp: cards_in_play_def)
qed

lemma length_cards_pick_set:
  "length (cards_in_play (snd (pick_set g tok card_ids))) \<le> length (cards_in_play g)"
proof -
  obtain cs where "length (cards_in_play (snd (pick_set g tok card_ids))) =
      length (deck g @ snd (remove_cards (field g) cs))"
    by (rule cards_pick_set)
  then show ?thesis using length_remove_cards [of "field g" cs] by (simp add: cards_in_play_def)
qed

lemma distinct_cards_pick_set:
  assumes "distinct (map f (cards_in_play g))"
  shows "distinct (map f (cards_in_play (snd (pick_set g tok card_ids))))"
proof -
  obtain cs where "distinct (map f (cards_in_play (snd (pick_set g tok card_ids)))) =
      distinct (map f (deck g @ snd (remove_cards (field g) cs)))"
    by (rule cards_pick_set [of g tok card_ids]) blast
  moreover have "distinct (map f (deck g @ snd (remove_cards (field g) cs)))"
    using assms unfolding cards_in_play_def by (rule distinct_cards_remove_cards)
  ultimately show ?thesis by simp
qed

lemma cards_add_player: "cards_in_play (add_player g tok) = cards_in_play g"
  by (simp add: add_player_def cards_in_play_def)

lemma set_cards_apply_op: "set (cards_in_play (apply_op g op)) \<subseteq> set (cards_in_play g)"
  by (cases op) (simp_all add: set_cards_pick_set add_cards_def set_cards_deal_times
      cards_add_player)

lemma length_cards_apply_op: "length (cards_in_play (apply_op g op)) \<le> length (cards_in_play g)"
  by (cases op) (simp_all add: length_cards_pick_set add_cards_def length_cards_deal_times
      cards_add_player)

lemma distinct_cards_apply_op:
  "distinct (map f (cards_in_play g)) \<Longrightarrow> distinct (map f (cards_in_play (apply_op g op)))"
  by (cases op) (simp_all add: distinct_cards_pick_set add_cards_def distinct_cards_deal_times
      cards_add_player)

lemma set_cards_run: "set (cards_in_play (run g ops)) \<subseteq> set (cards_in_play g)"
proof (induction ops arbitrary: g)
  case Nil
  show ?case by (simp add: run_Nil)
next
  case (Cons op ops)
  have "set (cards_in_play (run (apply_op g op) ops)) \<subseteq> set (cards_in_play (apply_op g op))"
    by (rule Cons.IH)
  also have "\<dots> \<subseteq> set (cards_in_play g)" by (rule set_cards_apply_op)
  finally show ?case by (simp add: run_Cons)
qed

lemma length_cards_run: "length (cards_in_play (run g ops)) \<le> length (cards_in_play g)"
proof (induction ops arbitrary: g)
  case Nil
  show ?case by (simp add: run_Nil)
next
  case (Cons op ops)
  have "length (cards_in_play (run (apply_op g op) ops)) \<le> length (cards_in_play (apply_op g op))"
    by (rule Cons.IH)
  also have "\<dots> \<le> length (cards_in_play g)" by (rule length_cards_apply_op)
  finally show ?case by (simp add: run_Cons)
qed

lemma distinct_cards_run:
  "distinct (map f (cards_in_play g)) \<Longrightarrow> distinct (map f (cards_in_play (run g ops)))"
proof (induction ops arbitrary: g)
  case Nil
  then show ?case by (simp add: run_Nil)
next
  case (Cons op ops)
  from Cons.prems have "distinct (map f (cards_in_play (apply_op g op)))"
    by (rule distinct_cards_apply_op)
  then have "distinct (map f (cards_in_play (run (apply_op g op) ops)))" by (rule Cons.IH)
  then show ?case by (simp add: run_Cons)
qed

section \<open>The bound on the field\<close>

lemma length_deck_deal_times: "length (deck (deal_times n g)) = length (deck g) - n"
  by (simp add: deck_deal_times)

lemma length_field_le_cards: "length (field g) \<le> length (cards_in_play g)"
  by (simp add: cards_in_play_def)

text \<open>
  Claim C4, as the code has it. In every state a room reaches from its construction by
  calls of \<open>pick_set\<close>, \<open>add_cards\<close> and \<open>add_player\<close>, the field has at most
  12 cards plus 3 for every call of \<open>add_cards\<close> made so far, and never more than
  81 cards. The bound 15 of the claim holds as long as \<open>add_cards\<close> was called at most
  once; \<open>add_cards\<close> has no limit of its own.
\<close>

theorem field_size_bound:
  "length (field (run (GameRoom_init rnd gid) ops)) \<le> 12 + 3 * count_list ops AddCards \<and>
   length (field (run (GameRoom_init rnd gid) ops)) \<le> 81"
proof
  show "length (field (run (GameRoom_init rnd gid) ops)) \<le> 12 + 3 * count_list ops AddCards"
    using length_field_run [of "GameRoom_init rnd gid" ops]
    by (simp add: length_field_GameRoom_init)
next
  have "length (field (run (GameRoom_init rnd gid) ops)) \<le>
      length (cards_in_play (run (GameRoom_init rnd gid) ops))"
    by (rule length_field_le_cards)
  also have "\<dots> \<le> length (cards_in_play (GameRoom_init rnd gid))" by (rule length_cards_run)
  also have "\<dots> = 81" by (rule cards_GameRoom_init(2))
  finally show "length (field (run (GameRoom_init rnd gid) ops)) \<le> 81" .
qed

text \<open>
  The claim C4 as written fails: two calls of \<open>add_cards\<close> on a fresh room put 18
  cards on the field.
\<close>

theorem field_size_counterexample:
  "length (field (run (GameRoom_init no_swap 0) [AddCards, AddCards])) = 18 \<and>
   \<not> length (field (run (GameRoom_init no_swap 0) [AddCards, AddCards])) \<le> 15"
proof -
  have "length (field (run (GameRoom_init no_swap 0) [AddCards, AddCards])) = 18"
    by (simp add: run_Cons run_Nil add_cards_def length_field_deal_times length_deck_deal_times
        length_field_GameRoom_init length_deck_GameRoom_init)
  then show ?thesis by simp
qed

theorem field_size_bound_witness:
  "length (field (run (GameRoom_init no_swap 0) [AddCards, AddCards])) \<le> 18"
  using field_size_bound [of no_swap 0 "[AddCards, AddCards]"] by simp

section \<open>The ids in play\<close>

lemma ids_in_play_cards: "ids_in_play g = set (map card_id (cards_in_play g))"
  by (simp add: ids_in_play_def cards_in_play_def image_Un)

lemma card_ids_in_play:
  assumes "distinct (map card_id (cards_in_play g))"
  shows "card (ids_in_play g) = length (cards_in_play g)"
proof -
  have "card (set (map card_id (cards_in_play g))) = length (map card_id (cards_in_play g))"
    using assms by (rule distinct_card)
  then show ?thesis by (simp only: ids_in_play_cards length_map)
qed

lemma distinct_ids_reachable:
  "distinct (map card_id (cards_in_play (run (GameRoom_init rnd gid) ops)))"
proof (rule distinct_cards_run)
  have "distinct (map card_id (ordered_deck []))" by (simp add: ids_ordered_deck)
  then show "distinct (map card_id (cards_in_play (GameRoom_init rnd gid)))"
    by (simp only: cards_GameRoom_init(3))
qed

lemma ids_GameRoom_init: "ids_in_play (GameRoom_init rnd gid) = {0..80}"
proof -
  have "ids_in_play (GameRoom_init rnd gid) = set (map card_id (ordered_deck []))"
    unfolding ids_in_play_cards set_map by (simp only: cards_GameRoom_init(1))
  then show ?thesis by (simp add: ids_ordered_deck)
qed

lemma ids_reachable_subset: "ids_in_play (run (GameRoom_init rnd gid) ops) \<subseteq> {0..80}"
proof -
  have "ids_in_play (run (GameRoom_init rnd gid) ops) \<subseteq> ids_in_play (GameRoom_init rnd gid)"
    unfolding ids_in_play_cards set_map using set_cards_run by (rule image_mono)
  then show ?thesis by (simp only: ids_GameRoom_init)
qed

lemma ids_add_cards: "ids_in_play (add_cards g) = ids_in_play g"
  unfolding ids_in_play_cards set_map by (simp add: add_cards_def set_cards_deal_times)

lemma ids_pick_set_False:
  assumes "pick_set g tok card_ids = (Inr (False, n), g')"
  shows "ids_in_play g' = ids_in_play g"
  using pick_set_returns_False [OF assms] by (simp add: ids_in_play_def)

lemma length_cards_pick_set_True:
  assumes "pick_set g tok card_ids = (Inr (True, n), g')"
  shows "length (cards_in_play g') + 3 = length (cards_in_play g)"
proof -
  from assms obtain c0 c1 c2 s fld where
    rem: "remove_cards (field g) [c0, c1, c2] = (None, fld)"
    and g': "g' = check_ended (refill (g\<lparr>field := fld, players := (players g)(tok \<mapsto> s + 1)\<rparr>))"
    by (rule pick_set_returns_True)
  have "length fld + 3 = length (field g)" using remove_cards_three [OF rem] by blast
  then show ?thesis
    by (simp add: g' cards_check_ended length_cards_refill) (simp add: cards_in_play_def)
qed

text \<open>
  Claim C1, as the code has it. In every state a room reaches from its construction by
  calls of \<open>pick_set\<close>, \<open>add_cards\<close> and \<open>add_player\<close>, no id is on two cards of
  deck and field, and the ids of deck and field together are among the 81 ids 0 to 80:
  there are at most 81 of them. They are exactly these 81 ids after construction;
  \<open>add_cards\<close> and a call of \<open>pick_set\<close> that returns false keep them as they
  are; a call of \<open>pick_set\<close> that returns true takes exactly three of them away, since
  the cards of a set found leave the game.
\<close>

theorem ids_in_play_reachable:
  assumes "g = run (GameRoom_init rnd gid) ops"
  shows "distinct (map card_id (deck g @ field g)) \<and>
    ids_in_play g \<subseteq> {0..80} \<and>
    card (ids_in_play g) \<le> 81 \<and>
    ids_in_play (GameRoom_init rnd gid) = {0..80} \<and>
    card (ids_in_play (GameRoom_init rnd gid)) = 81 \<and>
    ids_in_play (add_cards g) = ids_in_play g \<and>
    (\<forall>tok card_ids n g'. pick_set g tok card_ids = (Inr (False, n), g') \<longrightarrow>
       ids_in_play g' = ids_in_play g) \<and>
    (\<forall>tok card_ids n g'. pick_set g tok card_ids = (Inr (True, n), g') \<longrightarrow>
       ids_in_play g' \<subseteq> ids_in_play g \<and> card (ids_in_play g') + 3 = card (ids_in_play g))"
proof -
  have dis: "distinct (map card_id (cards_in_play g))"
    unfolding assms by (rule distinct_ids_reachable)
  have sub: "ids_in_play g \<subseteq> {0..80}" unfolding assms by (rule ids_reachable_subset)
  have "card (ids_in_play g) \<le> card {0..80::int}"
    using sub by (intro card_mono) simp_all
  then have le: "card (ids_in_play g) \<le> 81" by simp
  have init: "card (ids_in_play (GameRoom_init rnd gid)) = 81" by (simp add: ids_GameRoom_init)
  have picked: "ids_in_play g' \<subseteq> ids_in_play g \<and> card (ids_in_play g') + 3 = card (ids_in_play g)"
    if ret: "pick_set g tok card_ids = (Inr (True, n), g')" for tok card_ids n g'
  proof -
    have g': "g' = snd (pick_set g tok card_ids)" by (simp add: ret)
    have dis': "distinct (map card_id (cards_in_play g'))"
      unfolding g' using dis by (rule distinct_cards_pick_set)
    have "set (cards_in_play g') \<subseteq> set (cards_in_play g)"
      unfolding g' by (rule set_cards_pick_set)
    then have "ids_in_play g' \<subseteq> ids_in_play g"
      unfolding ids_in_play_cards set_map by (rule image_mono)
    moreover have "card (ids_in_play g') + 3 = card (ids_in_play g)"
      using length_cards_pick_set_True [OF ret]
      by (simp add: card_ids_in_play [OF dis] card_ids_in_play [OF dis'])
    ultimately show ?thesis ..
  qed
  show ?thesis
    using dis sub le init ids_GameRoom_init ids_add_cards ids_pick_set_False picked
    unfolding cards_in_play_def by blast
qed

theorem ids_in_play_reachable_witness:
  "joined_room = run (GameRoom_init no_swap 0) [AddPlayer ''alice''] \<and>
   card (ids_in_play joined_room) \<le> 81 \<and>
   pick_set joined_room ''alice'' [80, 79, 78] = (Inr (True, 1), picked_room) \<and>
   card (ids_in_play picked_room) + 3 = card (ids_in_play joined_room) \<and>
   pick_set joined_room ''alice'' [80, 79, 77] = (Inr (False, - 1), missed_room) \<and>
   ids_in_play missed_room = ids_in_play joined_room"
  using ids_in_play_reachable [OF joined_room_run] pick_set_joined_room_hit
    pick_set_joined_room_miss joined_room_run
  by blast

text \<open>
  The claim C1 as written fails: after a fresh room's first set is picked, deck and
  field hold 78 ids.
\<close>

theorem ids_in_play_counterexample:
  "card (ids_in_play
     (run (GameRoom_init no_swap 0) [AddPlayer ''alice'', Pick ''alice'' [80, 79, 78]])) = 78 \<and>
   card (ids_in_play
     (run (GameRoom_init no_swap 0) [AddPlayer ''alice'', Pick ''alice'' [80, 79, 78]])) \<noteq> 81"
proof -
  have "card (ids_in_play
     (run (GameRoom_init no_swap 0) [AddPlayer ''alice'', Pick ''alice'' [80, 79, 78]])) = 78"
    by code_simp
  then show ?thesis by simp
qed

section \<open>The same id three times\<close>

lemma is_valid_set_same_card: "is_valid_set c c c"
  by (simp add: is_valid_set_def check_property_def)

lemma find_card_once:
  "count_list (map card_id fld) i = 1 \<Longrightarrow>
     \<exists>c. find_card fld i = Some c \<and> c \<in> set fld \<and> c \<notin> set (remove1 c fld)"
proof (induction fld)
  case Nil
  then show ?case by simp
next
  case (Cons y ys)
  show ?case
  proof (cases "card_id y = i")
    case True
    with Cons.prems have "count_list (map card_id ys) i = 0" by simp
    then have "i \<notin> set (map card_id ys)" by (metis count_list_0_iff)
    with True have "y \<notin> set ys" by auto
    with True show ?thesis by simp
  next
    case False
    with Cons.prems have "count_list (map card_id ys) i = 1" by simp
    then obtain c where c: "find_card ys i = Some c" "c \<in> set ys" "c \<notin> set (remove1 c ys)"
      using Cons.IH by blast
    from c(1) have "card_id c = i" using find_card_Some by blast
    with False have "c \<noteq> y" by auto
    with False c show ?thesis by auto
  qed
qed

text \<open>
  Claim C2 against the code. Let the id \<open>i\<close> be on exactly one card of the field. A
  call of \<open>pick_set\<close> with \<open>i\<close> submitted three times does resolve all three slots
  to that one card \<open>c\<close>, and \<open>is_valid_set\<close> does report a match for it. But the
  call does not return true: the first \<^verbatim>\<open>self.field.remove(card)\<close> removes the card, the
  second finds it gone and raises \<^verbatim>\<open>ValueError\<close>. The call ends in that exception, with
  the card removed from the field and no score changed.
\<close>

theorem pick_set_same_id_thrice:
  assumes "count_list (map card_id (field g)) i = 1"
  shows "\<exists>c. get_card_by_id g i = Some c \<and> is_valid_set c c c \<and>
    pick_set g tok [i, i, i] = (Inl ValueError, g\<lparr>field := remove1 c (field g)\<rparr>) \<and>
    length (remove1 c (field g)) + 1 = length (field g)"
proof -
  from find_card_once [OF assms] obtain c where
    c: "find_card (field g) i = Some c" "c \<in> set (field g)" "c \<notin> set (remove1 c (field g))"
    by blast
  then have got: "get_card_by_id g i = Some c" by (simp add: get_card_by_id_def)
  have rem: "remove_cards (field g) [c, c, c] = (Some ValueError, remove1 c (field g))"
    using c(2,3) by simp
  have "pick_set g tok [i, i, i] = (Inl ValueError, g\<lparr>field := remove1 c (field g)\<rparr>)"
    by (simp only: pick_set_found [OF got got got] is_valid_set_same_card if_True rem
        prod.case option.case)
  moreover have "length (remove1 c (field g)) + 1 = length (field g)"
    using c(2) length_pos_if_in_set [OF c(2)] by (simp add: length_remove1)
  ultimately show ?thesis using got is_valid_set_same_card by blast
qed

theorem pick_set_same_id_thrice_witness:
  "count_list (map card_id (field joined_room)) 80 = 1 \<and>
   fst (pick_set joined_room ''alice'' [80, 80, 80]) = Inl ValueError \<and>
   fst (pick_set joined_room ''alice'' [80, 80, 80]) \<noteq> Inr (True, 1) \<and>
   length (field (snd (pick_set joined_room ''alice'' [80, 80, 80]))) + 1 =
     length (field joined_room) \<and>
   players (snd (pick_set joined_room ''alice'' [80, 80, 80])) ''alice'' = Some 0"
proof -
  have once: "count_list (map card_id (field joined_room)) 80 = 1"
    by (simp add: field_joined_room ids_field_fresh_room)
  from pick_set_same_id_thrice [OF once, of "''alice''"] obtain c where
    "pick_set joined_room ''alice'' [80, 80, 80] =
       (Inl ValueError, joined_room\<lparr>field := remove1 c (field joined_room)\<rparr>)"
    "length (remove1 c (field joined_room)) + 1 = length (field joined_room)"
    by blast
  then show ?thesis using once by (simp add: players_joined_room)
qed

section \<open>The end of the game\<close>

lemma status_refill: "status (refill g) = status g"
  by (simp add: refill_deal_times status_deal_times)

lemma status_check_ended:
  "status (check_ended g) =
     (if deck g = [] \<and> length (field g) < 3 then ''ended'' else status g)"
  by (simp add: check_ended_def)

text \<open>No operation takes a room out of the status "ended".\<close>

lemma ended_apply_op: "status g = ''ended'' \<Longrightarrow> status (apply_op g op) = ''ended''"
proof (cases op)
  case (Pick tok card_ids)
  assume ended: "status g = ''ended''"
  have "status (snd (pick_set g tok card_ids)) = ''ended''"
  proof (cases rule: pick_set_room_cases [of g tok card_ids])
    case (same ps)
    with ended show ?thesis by simp
  next
    case (removed cs)
    with ended show ?thesis by simp
  next
    case (matched c0 c1 c2 fld s)
    with ended show ?thesis by (simp add: status_check_ended status_refill)
  qed
  with Pick show ?thesis by simp
next
  case AddCards
  assume "status g = ''ended''"
  with AddCards show ?thesis by (simp add: add_cards_def status_deal_times)
next
  case (AddPlayer tok)
  assume "status g = ''ended''"
  with AddPlayer show ?thesis by (simp add: add_player_def)
qed

lemma ended_is_final: "status g = ''ended'' \<Longrightarrow> status (run g ops) = ''ended''"
proof (induction ops arbitrary: g)
  case Nil
  then show ?case by (simp add: run_Nil)
next
  case (Cons op ops)
  from Cons.prems have "status (apply_op g op) = ''ended''" by (rule ended_apply_op)
  then have "status (run (apply_op g op) ops) = ''ended''" by (rule Cons.IH)
  then show ?case by (simp add: run_Cons)
qed

text \<open>A room with the status "ended" has an empty deck and fewer than 3 cards.\<close>

lemma ended_drained_apply_op:
  assumes "ended_drained g"
  shows "ended_drained (apply_op g op)"
proof (cases op)
  case (Pick tok card_ids)
  have "ended_drained (snd (pick_set g tok card_ids))"
  proof (cases rule: pick_set_room_cases [of g tok card_ids])
    case (same ps)
    with assms show ?thesis by (simp add: ended_drained_def)
  next
    case (removed cs)
    with assms length_remove_cards [of "field g" cs] show ?thesis
      by (auto simp: ended_drained_def)
  next
    case (matched c0 c1 c2 fld s)
    have "length fld + 3 = length (field g)" using remove_cards_three [OF matched(1)] by blast
    then have "\<not> length (field g) < 3" by simp
    with assms have "status g \<noteq> ''ended''" by (auto simp: ended_drained_def)
    then show ?thesis
      by (simp add: matched(2) ended_drained_def status_check_ended status_refill
          field_check_ended deck_check_ended)
  qed
  with Pick show ?thesis by simp
next
  case AddCards
  with assms show ?thesis
    by (auto simp: ended_drained_def add_cards_def deal_times_closed)
next
  case (AddPlayer tok)
  with assms show ?thesis by (simp add: ended_drained_def add_player_def)
qed

lemma ended_drained_run: "ended_drained g \<Longrightarrow> ended_drained (run g ops)"
proof (induction ops arbitrary: g)
  case Nil
  then show ?case by (simp add: run_Nil)
next
  case (Cons op ops)
  from Cons.prems have "ended_drained (apply_op g op)" by (rule ended_drained_apply_op)
  then have "ended_drained (run (apply_op g op) ops)" by (rule Cons.IH)
  then show ?case by (simp add: run_Cons)
qed

lemma ended_only_when_drained:
  assumes "status (run (GameRoom_init rnd gid) ops) = ''ended''"
  shows "deck (run (GameRoom_init rnd gid) ops) = [] \<and>
    length (field (run (GameRoom_init rnd gid) ops)) < 3"
proof -
  have "ended_drained (GameRoom_init rnd gid)"
    by (simp add: ended_drained_def status_GameRoom_init)
  then have "ended_drained (run (GameRoom_init rnd gid) ops)" by (rule ended_drained_run)
  with assms show ?thesis by (simp add: ended_drained_def)
qed

section \<open>Runs in which no call raises\<close>

lemma settled_refill:
  "deck (refill g) = [] \<or> 12 \<le> length (field (refill g))"
proof (cases "12 - length (field g) \<le> length (deck g)")
  case True
  then have "min (12 - length (field g)) (length (deck g)) = 12 - length (field g)" by simp
  then have "length (field (refill g)) = length (field g) + (12 - length (field g))"
    by (simp add: refill_deal_times length_field_deal_times)
  then show ?thesis by arith
next
  case False
  then have "min (12 - length (field g)) (length (deck g)) = length (deck g)" by simp
  then show ?thesis by (simp add: refill_deal_times deck_deal_times)
qed

lemma settled_pick_set:
  assumes "settled g" and "\<not> isl (fst (pick_set g tok card_ids))"
  shows "settled (snd (pick_set g tok card_ids))"
proof -
  from assms(2) obtain m n g' where ret: "pick_set g tok card_ids = (Inr (m, n), g')"
    by (cases "pick_set g tok card_ids"; cases "fst (pick_set g tok card_ids)") auto
  show ?thesis
  proof (cases m)
    case False
    with ret have "pick_set g tok card_ids = (Inr (False, n), g')" by simp
    then have "field g' = field g \<and> deck g' = deck g \<and> status g' = status g"
      by (rule pick_set_returns_False)
    with assms(1) show ?thesis by (simp add: ret settled_def)
  next
    case True
    with ret have "pick_set g tok card_ids = (Inr (True, n), g')" by simp
    then obtain c0 c1 c2 s fld where
      rem: "remove_cards (field g) [c0, c1, c2] = (None, fld)"
      and g': "g' = check_ended (refill (g\<lparr>field := fld, players := (players g)(tok \<mapsto> s + 1)\<rparr>))"
      by (rule pick_set_returns_True)
    let ?r = "refill (g\<lparr>field := fld, players := (players g)(tok \<mapsto> s + 1)\<rparr>)"
    have "length fld + 3 = length (field g)" using remove_cards_three [OF rem] by blast
    then have "\<not> length (field g) < 3" by simp
    with assms(1) have live: "status g \<noteq> ''ended''" by (simp add: settled_def)
    have full: "deck ?r = [] \<or> 12 \<le> length (field ?r)" by (rule settled_refill)
    have st: "status ?r = status g" by (simp add: status_refill)
    from full live st have "settled (check_ended ?r)"
      by (simp add: settled_def status_check_ended field_check_ended deck_check_ended)
    then show ?thesis by (simp add: ret g')
  qed
qed

lemma settled_add_cards:
  assumes "settled g"
  shows "settled (add_cards g)"
proof (cases "deck g = []")
  case True
  with assms show ?thesis by (simp add: settled_def add_cards_def deal_times_closed)
next
  case False
  with assms have "12 \<le> length (field g)" and "status g \<noteq> ''ended''"
    by (auto simp: settled_def)
  then show ?thesis
    by (simp add: settled_def add_cards_def status_deal_times length_field_deal_times)
qed

lemma settled_apply_op: "settled g \<Longrightarrow> \<not> raises g op \<Longrightarrow> settled (apply_op g op)"
proof (cases op)
  case (Pick tok card_ids)
  assume "settled g" "\<not> raises g op"
  with Pick show ?thesis by (simp add: settled_pick_set)
next
  case AddCards
  assume "settled g"
  with AddCards show ?thesis by (simp add: settled_add_cards)
next
  case (AddPlayer tok)
  assume "settled g"
  with AddPlayer show ?thesis by (simp add: settled_def add_player_def)
qed

lemma settled_run: "settled g \<Longrightarrow> no_exception g ops \<Longrightarrow> settled (run g ops)"
proof (induction ops arbitrary: g)
  case Nil
  then show ?case by (simp add: run_Nil)
next
  case (Cons op ops)
  from Cons.prems have "settled (apply_op g op)" by (simp add: settled_apply_op)
  moreover from Cons.prems have "no_exception (apply_op g op) ops" by simp
  ultimately have "settled (run (apply_op g op) ops)" by (rule Cons.IH)
  then show ?case by (simp add: run_Cons)
qed

text \<open>
  As long as no call raises, the status is "ended" exactly when the deck is empty and
  the field has fewer than 3 cards.
\<close>

lemma ended_iff_drained_without_exception:
  assumes "no_exception (GameRoom_init rnd gid) ops"
  shows "(status (run (GameRoom_init rnd gid) ops) = ''ended'') =
    (deck (run (GameRoom_init rnd gid) ops) = [] \<and>
     length (field (run (GameRoom_init rnd gid) ops)) < 3)"
proof -
  have "length (deck (GameRoom_init rnd gid)) = 69" by (rule length_deck_GameRoom_init)
  then have "deck (GameRoom_init rnd gid) \<noteq> []" by auto
  then have "settled (GameRoom_init rnd gid)"
    by (simp add: settled_def length_field_GameRoom_init status_GameRoom_init)
  then have "settled (run (GameRoom_init rnd gid) ops)" using assms by (rule settled_run)
  then show ?thesis by (simp add: settled_def)
qed

text \<open>
  Claim C6 against the code. The claim's "if" direction fails on a run of \<open>pick_set\<close>
  calls by a joined token: six rounds, each removing nine cards of the field through
  calls with the same id three times (each raises \<^verbatim>\<open>ValueError\<close> after removing the
  card) and then picking the three cards left, which are a set, empty the deck; seven
  more calls with the same id three times leave two cards on the field. The deck is
  empty, the field has fewer than 3 cards, and the status is still "ongoing": the check
  of the end is only reached by a call that returns true.
\<close>

theorem drained_but_ongoing:
  "status (run (GameRoom_init no_swap 0) drain_ops) = ''ongoing'' \<and>
   deck (run (GameRoom_init no_swap 0) drain_ops) = [] \<and>
   length (field (run (GameRoom_init no_swap 0) drain_ops)) = 2 \<and>
   players (run (GameRoom_init no_swap 0) drain_ops) ''alice'' = Some 6"
proof -
  let ?g = "run (GameRoom_init no_swap 0) drain_ops"
  have "(status ?g, length (deck ?g), length (field ?g), players ?g ''alice'') =
      (''ongoing'', 0, 2, Some 6)"
    by code_simp
  then show ?thesis by simp
qed

end
